theory Spec2Isabelle
  imports Main "HOL-Library.Sublist" "HOL-Library.Multiset"
begin

section \<open>Huffman coding: the data model of huffman.py\<close>

text \<open>
  A \<open>Node\<close> of the source has a frequency, an optional character and optional
  left and right children; the class itself does not restrict which of them are present.
  Frequencies are Python integers.
\<close>

datatype node = Node (freq: int) (char: "char option") (left: "node option") (right: "node option")

text \<open>\<open>Node.is_leaf\<close>: the character is not \<open>None\<close>.\<close>

definition is_leaf :: "node \<Rightarrow> bool" where
  "is_leaf n = (char n \<noteq> None)"

text \<open>
  The exceptions the code can raise; the source defines no exception class and has no
  \<open>raise\<close> statement of its own. \<open>KeyError\<close> carries the missing key, as Python's does.
  \<open>QueueError\<close> is an exception raised inside the priority queue library.
\<close>

datatype error = AttributeError | KeyError char | TypeError | QueueError | RecursionError

subsection \<open>Frequency table\<close>

text \<open>
  The frequency table is a Python dict, which keeps its keys in the order of first
  insertion: an association list, a key's count updated in place and a new key appended.
\<close>

fun count_char :: "(char \<times> int) list \<Rightarrow> char \<Rightarrow> (char \<times> int) list" where
  "count_char [] c = [(c, 1)]"
| "count_char ((k, v) # t) c = (if k = c then (k, v + 1) # t else (k, v) # count_char t c)"

definition freq_table_of :: "string \<Rightarrow> (char \<times> int) list" where
  "freq_table_of src = foldl count_char [] src"

subsection \<open>The priority queue\<close>

text \<open>
  Modelled from the spec: the class \<open>MinPQ\<close> of the library \<open>friendsbalt.acs\<close>, which the
  source imports and which is not part of the repository. It is a min-priority-queue
  keyed by the nodes' frequency. The queue is the list of its nodes in insertion order;
  its length is the number of nodes in it.
\<close>

type_synonym minpq = "node list"

text \<open>Modelled from the spec: \<open>MinPQ.insert\<close> adds a node to the queue.\<close>

definition pq_insert :: "node \<Rightarrow> minpq \<Rightarrow> minpq" where
  "pq_insert x pq = pq @ [x]"

text \<open>
  Modelled from the spec: \<open>MinPQ.del_min\<close> removes and returns a node of minimum
  frequency; among nodes of equal frequency the one inserted first is removed first
  (the tie-break by insertion order that the spec recommends).

  The spec does not say what \<open>del_min\<close> does on an empty queue, and the library is not
  part of the repository, so that outcome is a parameter, \<open>on_empty\<close>: either the
  exception the call raises, or the value it returns, which is \<open>None\<close> or a node.
\<close>

type_synonym empty_outcome = "error + node option"

fun first_min :: "node \<Rightarrow> node list \<Rightarrow> node" where
  "first_min m [] = m"
| "first_min m (x # xs) = (if freq x < freq m then first_min x xs else first_min m xs)"

definition del_min :: "empty_outcome \<Rightarrow> minpq \<Rightarrow> error + node option \<times> minpq" where
  "del_min on_empty pq =
     (case pq of
        [] \<Rightarrow> (case on_empty of Inl e \<Rightarrow> Inl e | Inr v \<Rightarrow> Inr (v, []))
      | x # xs \<Rightarrow> Inr (Some (first_min x xs), remove1 (first_min x xs) pq))"

subsection \<open>Building the tree\<close>

text \<open>
  The loop of \<open>_build_huffman_tree\<close>: while the queue holds more than one node, remove
  the two smallest and insert their parent. Reading \<open>left.freq\<close> or \<open>right.freq\<close> of a
  removed value that is \<open>None\<close> raises \<open>AttributeError\<close>.
\<close>

function build_loop :: "empty_outcome \<Rightarrow> minpq \<Rightarrow> error + minpq" where
  "build_loop on_empty pq =
     (if length pq > 1 then
        (case del_min on_empty pq of
           Inl e \<Rightarrow> Inl e
         | Inr (left_node, pq1) \<Rightarrow>
             (case del_min on_empty pq1 of
                Inl e \<Rightarrow> Inl e
              | Inr (right_node, pq2) \<Rightarrow>
                  (case left_node of
                     None \<Rightarrow> Inl AttributeError
                   | Some l \<Rightarrow>
                       (case right_node of
                          None \<Rightarrow> Inl AttributeError
                        | Some r \<Rightarrow>
                            build_loop on_empty
                              (pq_insert (Node (freq l + freq r) None (Some l) (Some r)) pq2)))))
      else Inr pq)"
  by pat_completeness auto
termination
proof (relation "measure (\<lambda>(on_empty, pq). length pq)")
  show "wf (measure (\<lambda>(on_empty, pq). length pq))" by simp
next
  fix on_empty :: empty_outcome and pq :: minpq and x2 left_node pq1 x2a right_node pq2 l r
  assume a: "1 < length pq" "del_min on_empty pq = Inr x2" "(left_node, pq1) = x2"
    "del_min on_empty pq1 = Inr x2a" "(right_node, pq2) = x2a"
  have mem: "first_min m xs \<in> set (m # xs)" for m xs
    by (induction xs arbitrary: m) auto
  have len: "length q = Suc (length rest)"
    if "q \<noteq> []" and "del_min on_empty q = Inr (m, rest)" for q m rest
  proof (cases q)
    case Nil
    with that show ?thesis by simp
  next
    case (Cons y ys)
    with that have rest: "rest = remove1 (first_min y ys) q"
      by (auto simp del: remove1.simps simp add: del_min_def)
    have "first_min y ys \<in> set q" using mem [of y ys] Cons by simp
    then have "length (remove1 (first_min y ys) q) = length q - 1"
      by (simp add: length_remove1)
    moreover have "0 < length q" using Cons by simp
    ultimately show ?thesis using rest by simp
  qed
  from a(1) have "pq \<noteq> []" by auto
  then have 1: "length pq = Suc (length pq1)" using a len [of pq left_node pq1] by simp
  with a(1) have "pq1 \<noteq> []" by auto
  then have "length pq1 = Suc (length pq2)" using a len [of pq1 right_node pq2] by simp
  with 1 show "((on_empty, pq_insert (Node (freq l + freq r) None (Some l) (Some r)) pq2),
      (on_empty, pq)) \<in> measure (\<lambda>(on_empty, pq). length pq)"
    by (simp add: pq_insert_def)
qed

text \<open>
  \<open>_build_dictionary\<close>: a leaf maps its character to the prefix \<open>pfx\<close>; any other node merges the
  dictionaries of its left subtree (prefix extended by \<open>0\<close>) and of its right subtree
  (prefix extended by \<open>1\<close>), the right one overriding. The source replaces an argument
  \<open>None\<close> by the root, so a missing child of a node that is not a leaf restarts the same
  traversal from the root with a longer prefix, without end: Python stops it with a
  \<open>RecursionError\<close>.
\<close>

fun build_dictionary :: "node \<Rightarrow> string \<Rightarrow> error + (char \<rightharpoonup> string)" where
  "build_dictionary (Node f c l r) pfx =
     (case c of
        Some ch \<Rightarrow> Inr [ch \<mapsto> pfx]
      | None \<Rightarrow>
          (case l of
             None \<Rightarrow> Inl RecursionError
           | Some ln \<Rightarrow>
               (case build_dictionary ln (pfx @ ''0'') of
                  Inl e \<Rightarrow> Inl e
                | Inr d1 \<Rightarrow>
                    (case r of
                       None \<Rightarrow> Inl RecursionError
                     | Some rn \<Rightarrow>
                         (case build_dictionary rn (pfx @ ''1'') of
                            Inl e \<Rightarrow> Inl e
                          | Inr d2 \<Rightarrow> Inr (Map.empty ++ d1 ++ d2))))))"

text \<open>The attributes of a \<open>HuffmanEncoding\<close> object, as \<open>__init__\<close> sets them.\<close>

record huffman =
  root_node :: "node option"
  encoded_text :: "string option"
  source_text :: "string option"
  codes :: "char \<rightharpoonup> string"

text \<open>
  \<open>_build_huffman_tree\<close>: count the characters, insert a leaf for each, merge, take the
  last node of the queue as the root and derive the code table from it. When the last
  \<open>del_min\<close> returns \<open>None\<close>, \<open>_build_dictionary\<close> is called with \<open>None\<close>, takes
  \<open>self.root_node\<close>, which is \<open>None\<close> too, and \<open>None.is_leaf()\<close> raises \<open>AttributeError\<close>.
\<close>

definition initial_pq :: "(char \<times> int) list \<Rightarrow> minpq" where
  "initial_pq table = foldl (\<lambda>pq (c, f). pq_insert (Node f (Some c) None None) pq) [] table"

definition build_huffman_tree :: "empty_outcome \<Rightarrow> huffman \<Rightarrow> string \<Rightarrow> error + huffman" where
  "build_huffman_tree on_empty self src =
     (case build_loop on_empty (initial_pq (freq_table_of src)) of
        Inl e \<Rightarrow> Inl e
      | Inr pq \<Rightarrow>
          (case del_min on_empty pq of
             Inl e \<Rightarrow> Inl e
           | Inr (root, pq') \<Rightarrow>
               (case root of
                  None \<Rightarrow> Inl AttributeError
                | Some root_node' \<Rightarrow>
                    (case build_dictionary root_node' [] of
                       Inl e \<Rightarrow> Inl e
                     | Inr d \<Rightarrow> Inr (self\<lparr>root_node := Some root_node', codes := d\<rparr>)))))"

subsection \<open>Encoding and decoding\<close>

text \<open>
  \<open>encoding\<close>: the codes of the characters of the source text, joined; a character with
  no entry in \<open>codes\<close> raises \<open>KeyError\<close>.
\<close>

fun join_codes :: "(char \<rightharpoonup> string) \<Rightarrow> string \<Rightarrow> error + string" where
  "join_codes d [] = Inr []"
| "join_codes d (c # cs) =
     (case d c of
        None \<Rightarrow> Inl (KeyError c)
      | Some code \<Rightarrow>
          (case join_codes d cs of Inl e \<Rightarrow> Inl e | Inr rest \<Rightarrow> Inr (code @ rest)))"

definition encoding :: "huffman \<Rightarrow> error + string" where
  "encoding self =
     (case source_text self of None \<Rightarrow> Inr [] | Some s \<Rightarrow> join_codes (codes self) s)"

text \<open>
  The loop of \<open>_decode_encoded_text\<close>, with the cursor \<open>node\<close> and the characters decoded
  so far. A missing child makes the cursor \<open>None\<close>, and \<open>None.is_leaf()\<close> raises
  \<open>AttributeError\<close>.
\<close>

fun decode_loop :: "node \<Rightarrow> node \<Rightarrow> string \<Rightarrow> string \<Rightarrow> error + string" where
  "decode_loop root node [] decoded_text = Inr decoded_text"
| "decode_loop root node (b # bits) decoded_text =
     (case (if b = CHR ''0'' then left node else right node) of
        None \<Rightarrow> Inl AttributeError
      | Some n \<Rightarrow>
          (case char n of
             Some c \<Rightarrow> decode_loop root root bits (decoded_text @ [c])
           | None \<Rightarrow> decode_loop root n bits decoded_text))"

definition decode_encoded_text :: "string \<Rightarrow> node \<Rightarrow> error + string" where
  "decode_encoded_text encoded root = decode_loop root root encoded []"

text \<open>
  \<open>__init__\<close>, with \<open>None\<close> for an argument that is not given. The first argument of the
  model is the outcome of \<open>del_min\<close> on an empty queue, which only the construction from
  a source text can meet.
\<close>

definition init ::
  "empty_outcome \<Rightarrow> string option \<Rightarrow> string option \<Rightarrow> node option \<Rightarrow> error + huffman" where
  "init on_empty src encoded root =
     (let self = \<lparr>root_node = None, encoded_text = encoded, source_text = src,
                  codes = Map.empty\<rparr>
      in case src of
           Some s \<Rightarrow> build_huffman_tree on_empty self s
         | None \<Rightarrow>
             (case (encoded, root) of
                (Some enc, Some r) \<Rightarrow>
                  (case decode_encoded_text enc r of
                     Inl e \<Rightarrow> Inl e
                   | Inr text \<Rightarrow> Inr (self\<lparr>root_node := Some r, source_text := Some text\<rparr>))
              | _ \<Rightarrow> Inr self))"

subsection \<open>Attribute access\<close>

text \<open>
  Python looks a name up on the object first and on its class second. \<open>__init__\<close> gives
  every object the attributes \<open>root_node\<close>, \<open>encoded_text\<close>, \<open>source_text\<close> and \<open>codes\<close>;
  the class defines the public methods \<open>encoding\<close>, \<open>source_text\<close> and \<open>root\<close>. Calling a
  value that is not a method raises \<open>TypeError\<close>; a name found nowhere raises
  \<open>AttributeError\<close>.
\<close>

datatype pyvalue =
  PyNone | PyStr string | PyNode node | PyDict "char \<rightharpoonup> string" | PyMethod string

definition instance_attr :: "huffman \<Rightarrow> string \<Rightarrow> pyvalue option" where
  "instance_attr self name =
     (if name = ''root_node'' then
        Some (case root_node self of None \<Rightarrow> PyNone | Some n \<Rightarrow> PyNode n)
      else if name = ''encoded_text'' then
        Some (case encoded_text self of None \<Rightarrow> PyNone | Some s \<Rightarrow> PyStr s)
      else if name = ''source_text'' then
        Some (case source_text self of None \<Rightarrow> PyNone | Some s \<Rightarrow> PyStr s)
      else if name = ''codes'' then Some (PyDict (codes self))
      else None)"

definition class_methods :: "string list" where
  "class_methods = [''encoding'', ''source_text'', ''root'']"

definition getattr :: "huffman \<Rightarrow> string \<Rightarrow> error + pyvalue" where
  "getattr self name =
     (case instance_attr self name of
        Some v \<Rightarrow> Inr v
      | None \<Rightarrow> if name \<in> set class_methods then Inr (PyMethod name) else Inl AttributeError)"

text \<open>The bodies of the three public methods.\<close>

definition run_method :: "huffman \<Rightarrow> string \<Rightarrow> error + pyvalue" where
  "run_method self name =
     (if name = ''encoding'' then
        (case encoding self of Inl e \<Rightarrow> Inl e | Inr s \<Rightarrow> Inr (PyStr s))
      else if name = ''source_text'' then getattr self ''source_text''
      else if name = ''root'' then getattr self ''root_node''
      else Inl AttributeError)"

text \<open>\<open>obj.name()\<close>: look the name up, then call what was found.\<close>

definition call_method :: "huffman \<Rightarrow> string \<Rightarrow> error + pyvalue" where
  "call_method self name =
     (case getattr self name of
        Inl e \<Rightarrow> Inl e
      | Inr (PyMethod m) \<Rightarrow> run_method self m
      | Inr _ \<Rightarrow> Inl TypeError)"

subsection \<open>The two modes of use\<close>

text \<open>
  Encoding a text is constructing from the source and reading \<open>encoding()\<close>; its tree is
  the \<open>root_node\<close> of the same object; decoding is constructing from an encoded text and
  a root and reading the attribute \<open>source_text\<close>.
\<close>

definition encode :: "empty_outcome \<Rightarrow> string \<Rightarrow> error + string" where
  "encode on_empty src =
     (case init on_empty (Some src) None None of Inl e \<Rightarrow> Inl e | Inr h \<Rightarrow> encoding h)"

definition tree_of :: "empty_outcome \<Rightarrow> string \<Rightarrow> error + node option" where
  "tree_of on_empty src =
     (case init on_empty (Some src) None None of Inl e \<Rightarrow> Inl e | Inr h \<Rightarrow> Inr (root_node h))"

definition code_table :: "empty_outcome \<Rightarrow> string \<Rightarrow> error + (char \<rightharpoonup> string)" where
  "code_table on_empty src =
     (case init on_empty (Some src) None None of Inl e \<Rightarrow> Inl e | Inr h \<Rightarrow> Inr (codes h))"

definition decode :: "empty_outcome \<Rightarrow> string \<Rightarrow> node \<Rightarrow> error + string option" where
  "decode on_empty encoded root =
     (case init on_empty None (Some encoded) (Some root) of
        Inl e \<Rightarrow> Inl e
      | Inr h \<Rightarrow> Inr (source_text h))"

text \<open>\<open>HuffmanEncoding(src).source_text()\<close>: constructing from a source and calling the method.\<close>

definition source_call :: "empty_outcome \<Rightarrow> string \<Rightarrow> error + pyvalue" where
  "source_call on_empty src =
     (case init on_empty (Some src) None None of
        Inl e \<Rightarrow> Inl e
      | Inr h \<Rightarrow> call_method h ''source_text'')"

definition code_of :: "empty_outcome \<Rightarrow> string \<Rightarrow> char \<Rightarrow> error + string option" where
  "code_of on_empty src c =
     (case code_table on_empty src of Inl e \<Rightarrow> Inl e | Inr d \<Rightarrow> Inr (d c))"

section \<open>Properties of trees\<close>

text \<open>
  A node is well formed when it is a leaf with a character and no children, or an
  internal node with no character, two well-formed children and the sum of their
  frequencies as its frequency.
\<close>

fun well_formed :: "node \<Rightarrow> bool" where
  "well_formed (Node f c l r) =
     (case c of
        Some ch \<Rightarrow> l = None \<and> r = None
      | None \<Rightarrow>
          (case l of
             None \<Rightarrow> False
           | Some ln \<Rightarrow>
               (case r of
                  None \<Rightarrow> False
                | Some rn \<Rightarrow> f = freq ln + freq rn \<and> well_formed ln \<and> well_formed rn)))"

text \<open>The leaves from left to right, each as its character and frequency.\<close>

fun leaf_table :: "node \<Rightarrow> (char \<times> int) list" where
  "leaf_table (Node f c l r) =
     (case c of
        Some ch \<Rightarrow> [(ch, f)]
      | None \<Rightarrow>
          (case l of None \<Rightarrow> [] | Some ln \<Rightarrow> leaf_table ln) @
          (case r of None \<Rightarrow> [] | Some rn \<Rightarrow> leaf_table rn))"

definition leaf_chars :: "node \<Rightarrow> char list" where
  "leaf_chars t = map fst (leaf_table t)"

text \<open>
  \<open>follow n bits\<close> is the node reached from \<open>n\<close> by going left on \<open>0\<close> and right on any
  other character, provided no leaf is met before the last step. A path from the root to
  a leaf is that leaf's code; a path to a node that is not a leaf is an incomplete code.
\<close>

fun follow :: "node \<Rightarrow> string \<Rightarrow> node option" where
  "follow n [] = Some n"
| "follow n (b # bs) =
     (case (if b = CHR ''0'' then left n else right n) of
        None \<Rightarrow> None
      | Some m \<Rightarrow> if is_leaf m then (if bs = [] then Some m else None) else follow m bs)"

text \<open>The parent the loop makes of the two nodes it removes.\<close>

definition merged :: "node \<Rightarrow> node \<Rightarrow> node" where
  "merged l r = Node (freq l + freq r) None (Some l) (Some r)"

text \<open>
  The leaves of all the trees in a queue, and the invariant of the loop: every tree in the
  queue is well formed, and the leaves of the queue are the entries of the frequency
  table.
\<close>

definition forest_table :: "node list \<Rightarrow> (char \<times> int) list" where
  "forest_table pq = concat (map leaf_table pq)"

definition forest_ok :: "(char \<times> int) list \<Rightarrow> node list \<Rightarrow> bool" where
  "forest_ok t pq \<longleftrightarrow> (\<forall>n\<in>set pq. well_formed n) \<and> mset (forest_table pq) = mset t"

text \<open>
  The nodes at depth \<open>k\<close> of a tree, from left to right, and of all the trees of a queue.
\<close>

fun level :: "nat \<Rightarrow> node \<Rightarrow> node list" where
  "level 0 n = [n]"
| "level (Suc k) n =
     (case left n of None \<Rightarrow> [] | Some l \<Rightarrow> level k l) @
     (case right n of None \<Rightarrow> [] | Some r \<Rightarrow> level k r)"

definition flevel :: "nat \<Rightarrow> node list \<Rightarrow> node list" where
  "flevel k pq = concat (map (level k) pq)"

text \<open>
  The invariant of the loop that orders the levels. In the queue an internal node is
  followed only by internal nodes that are no lighter; below the roots every level is
  ordered by frequency from left to right; no node is heavier than any node one level
  higher; and no internal root is heavier than two other roots together.
\<close>

definition level_inv :: "node list \<Rightarrow> bool" where
  "level_inv pq \<longleftrightarrow>
     sorted_wrt (\<lambda>a b. \<not> is_leaf a \<longrightarrow> \<not> is_leaf b \<and> freq a \<le> freq b) pq \<and>
     (\<forall>k. sorted_wrt (\<lambda>a b. freq a \<le> freq b) (flevel (Suc k) pq)) \<and>
     (\<forall>k. \<forall>a\<in>set (flevel (Suc k) pq). \<forall>b\<in>set (flevel k pq). freq a \<le> freq b) \<and>
     (\<forall>q\<in>set pq. \<not> is_leaf q \<longrightarrow> sorted_wrt (\<lambda>T U. freq q \<le> freq T + freq U) pq)"

section \<open>Evaluation\<close>

lemmas run_defs =
  encode_def tree_of_def code_table_def code_of_def decode_def init_def
  build_huffman_tree_def freq_table_of_def initial_pq_def pq_insert_def del_min_def
  encoding_def decode_encoded_text_def is_leaf_def

lemmas attr_defs =
  call_method_def getattr_def instance_attr_def class_methods_def run_method_def

section \<open>Decoding\<close>

text \<open>Decoding never uses the queue: \<open>decode\<close> is \<open>_decode_encoded_text\<close>, whatever \<open>on_empty\<close> is.\<close>

lemma decode_ignores_queue:
  "decode on_empty encoded root =
     (case decode_encoded_text encoded root of Inl e \<Rightarrow> Inl e | Inr text \<Rightarrow> Inr (Some text))"
  by (simp add: decode_def init_def split: sum.splits)

lemma decode_loop_code:
  "follow node p = Some m \<Longrightarrow> char m = Some c \<Longrightarrow> p \<noteq> [] \<Longrightarrow>
   decode_loop root node (p @ rest) acc = decode_loop root root rest (acc @ [c])"
proof (induction p arbitrary: node)
  case Nil
  then show ?case by simp
next
  case (Cons b bs)
  from Cons.prems(1) obtain n where
    n: "(if b = CHR ''0'' then left node else right node) = Some n"
    and f: "(if is_leaf n then (if bs = [] then Some n else None) else follow n bs) = Some m"
    by (auto split: option.splits)
  show ?case
  proof (cases "is_leaf n")
    case True
    with f have "bs = []" "n = m" by (auto split: if_splits)
    with n Cons.prems(2) show ?thesis by simp
  next
    case False
    with f have fm: "follow n bs = Some m" by simp
    have "bs \<noteq> []"
    proof
      assume "bs = []"
      with fm have "n = m" by simp
      with False Cons.prems(2) show False by (simp add: is_leaf_def)
    qed
    from Cons.IH [OF fm Cons.prems(2) this] n False show ?thesis
      by (simp add: is_leaf_def)
  qed
qed

lemma decode_loop_partial:
  "follow node q = Some m \<Longrightarrow> \<not> is_leaf m \<Longrightarrow> decode_loop root node q acc = Inr acc"
proof (induction q arbitrary: node)
  case Nil
  then show ?case by simp
next
  case (Cons b bs)
  then show ?case
    by (auto simp: is_leaf_def split: option.splits if_splits)
qed

lemma decode_loop_codes:
  "list_all2 (\<lambda>p c. p \<noteq> [] \<and> (\<exists>m. follow root p = Some m \<and> char m = Some c)) ps cs \<Longrightarrow>
   decode_loop root root (concat ps @ rest) acc = decode_loop root root rest (acc @ cs)"
proof (induction ps cs arbitrary: acc rule: list_all2_induct)
  case Nil
  then show ?case by simp
next
  case (Cons p ps c cs)
  then obtain m where m: "follow root p = Some m" "char m = Some c" "p \<noteq> []" by blast
  have "decode_loop root root (concat (p # ps) @ rest) acc
      = decode_loop root root (p @ (concat ps @ rest)) acc" by simp
  also have "\<dots> = decode_loop root root (concat ps @ rest) (acc @ [c])"
    using decode_loop_code [OF m] .
  also have "\<dots> = decode_loop root root rest ((acc @ [c]) @ cs)"
    using Cons.IH .
  finally show ?case by simp
qed

lemma decode_loop_normalise:
  "decode_loop root node (map (\<lambda>b. if b = CHR ''0'' then CHR ''0'' else CHR ''1'') bits) acc
   = decode_loop root node bits acc"
  by (induction bits arbitrary: node acc) (auto split: option.splits)

text \<open>
  C10. The decoder does not validate the encoded stream. At every character the cursor
  goes to the left child exactly when the character is \<open>0\<close>, and to the right child for
  any other character; a child that is a leaf gives its character and sends the cursor
  back to the root. So a stream decodes as the stream in which every character other
  than \<open>0\<close> is replaced by \<open>1\<close>, and with a root whose two children are leaves every
  \<open>0\<close> of the stream gives the left leaf's character and every other character the right
  leaf's.
\<close>

theorem decoder_reads_non_zero_as_one:
  "decode_loop root node (CHR ''0'' # bits) acc =
     (case left node of
        None \<Rightarrow> Inl AttributeError
      | Some n \<Rightarrow>
          (case char n of
             Some c \<Rightarrow> decode_loop root root bits (acc @ [c])
           | None \<Rightarrow> decode_loop root n bits acc))
   \<and> (b \<noteq> CHR ''0'' \<longrightarrow>
        decode_loop root node (b # bits) acc =
          (case right node of
             None \<Rightarrow> Inl AttributeError
           | Some n \<Rightarrow>
               (case char n of
                  Some c \<Rightarrow> decode_loop root root bits (acc @ [c])
                | None \<Rightarrow> decode_loop root n bits acc)))
   \<and> decode_encoded_text encoded root =
       decode_encoded_text (map (\<lambda>b. if b = CHR ''0'' then CHR ''0'' else CHR ''1'') encoded) root
   \<and> (left root = Some l \<and> char l = Some x \<and> right root = Some r \<and> char r = Some y \<longrightarrow>
        decode_encoded_text encoded root =
          Inr (map (\<lambda>b. if b = CHR ''0'' then x else y) encoded))"
proof -
  have two_leaves: "decode_loop root root encoded acc' =
      Inr (acc' @ map (\<lambda>b. if b = CHR ''0'' then x else y) encoded)"
    if "left root = Some l" "char l = Some x" "right root = Some r" "char r = Some y"
    for acc'
    using that by (induction encoded arbitrary: acc') simp_all
  show ?thesis
    using two_leaves [of "[]"] by (simp add: decode_encoded_text_def decode_loop_normalise)
qed

theorem decoder_reads_non_zero_as_one_witness:
  "decode_loop
     (Node 2 None (Some (Node 1 (Some CHR ''a'') None None))
        (Some (Node 1 (Some CHR ''b'') None None)))
     (Node 2 None (Some (Node 1 (Some CHR ''a'') None None))
        (Some (Node 1 (Some CHR ''b'') None None)))
     ''x0'' [] = Inr ''ba''
   \<and> decode_encoded_text ''0x21''
     (Node 2 None (Some (Node 1 (Some CHR ''a'') None None))
        (Some (Node 1 (Some CHR ''b'') None None))) = Inr ''abbb''
   \<and> decode_encoded_text ''2x0''
     (Node 3 None (Some (Node 1 (Some CHR ''c'') None None))
        (Some (Node 2 None (Some (Node 1 (Some CHR ''a'') None None))
           (Some (Node 1 (Some CHR ''b'') None None))))) = Inr ''bc''"
  using
    decoder_reads_non_zero_as_one [where b = "CHR ''x''" and bits = "''0''" and acc = "[]"
      and encoded = "''0x21''" and x = "CHR ''a''" and y = "CHR ''b''"
      and l = "Node 1 (Some CHR ''a'') None None" and r = "Node 1 (Some CHR ''b'') None None"
      and node = "Node 2 None (Some (Node 1 (Some CHR ''a'') None None))
        (Some (Node 1 (Some CHR ''b'') None None))"
      and root = "Node 2 None (Some (Node 1 (Some CHR ''a'') None None))
        (Some (Node 1 (Some CHR ''b'') None None))"]
    decoder_reads_non_zero_as_one [where encoded = "''2x0''" and bits = "[]"
      and root = "Node 3 None (Some (Node 1 (Some CHR ''c'') None None))
        (Some (Node 2 None (Some (Node 1 (Some CHR ''a'') None None))
           (Some (Node 1 (Some CHR ''b'') None None))))"]
  by (simp add: decode_encoded_text_def)

text \<open>
  C5, as the code has it. A stream made of whole codes followed by an incomplete code,
  one that ends at a node that is not a leaf, is decoded without any error: the result is
  the characters of the whole codes, and the bits of the incomplete code are dropped.
\<close>

theorem truncated_stream_decodes_silently:
  assumes "list_all2 (\<lambda>p c. p \<noteq> [] \<and> (\<exists>m. follow root p = Some m \<and> char m = Some c)) ps cs"
    and "follow root q = Some m" and "\<not> is_leaf m"
  shows "decode_encoded_text (concat ps @ q) root = Inr cs"
proof -
  have "decode_loop root root (concat ps @ q) [] = decode_loop root root q ([] @ cs)"
    using decode_loop_codes [OF assms(1)] .
  also have "\<dots> = Inr cs"
    using decode_loop_partial [OF assms(2,3)] by simp
  finally show ?thesis by (simp add: decode_encoded_text_def)
qed

theorem truncated_stream_decodes_silently_witness:
  "decode_encoded_text (concat [''0'', ''0'', ''10''] @ ''1'')
     (Node 4 None (Some (Node 2 (Some CHR ''a'') None None))
        (Some (Node 2 None (Some (Node 1 (Some CHR ''b'') None None))
           (Some (Node 1 (Some CHR ''c'') None None))))) = Inr ''aab''"
  by (rule truncated_stream_decodes_silently
        [where m = "Node 2 None (Some (Node 1 (Some CHR ''b'') None None))
           (Some (Node 1 (Some CHR ''c'') None None))"])
     (simp_all add: is_leaf_def)

text \<open>
  The claim C5 itself fails: the text \<open>aabc\<close> encodes to \<open>001011\<close>, and that stream without
  its last bit decodes to \<open>aab\<close>, with no error. The queue is never empty when \<open>del_min\<close>
  is called here, so the outcome taken for an empty queue plays no part.
\<close>

theorem truncated_stream_counterexample:
  "encode (Inl QueueError) ''aabc'' = Inr ''001011'' \<and>
   tree_of (Inl QueueError) ''aabc'' =
     Inr (Some (Node 4 None (Some (Node 2 (Some CHR ''a'') None None))
        (Some (Node 2 None (Some (Node 1 (Some CHR ''b'') None None))
           (Some (Node 1 (Some CHR ''c'') None None)))))) \<and>
   decode (Inl QueueError) ''00101''
     (Node 4 None (Some (Node 2 (Some CHR ''a'') None None))
        (Some (Node 2 None (Some (Node 1 (Some CHR ''b'') None None))
           (Some (Node 1 (Some CHR ''c'') None None))))) = Inr (Some ''aab'')"
  by (simp add: run_defs)

section \<open>Encoding\<close>

lemma join_codes_first_missing:
  "set pre \<subseteq> dom d \<Longrightarrow> d c = None \<Longrightarrow> join_codes d (pre @ c # post) = Inl (KeyError c)"
  by (induction pre) (auto split: option.splits sum.splits)

lemma join_codes_total:
  "set s \<subseteq> dom d \<Longrightarrow> join_codes d s = Inr (concat (map (\<lambda>c. the (d c)) s))"
  by (induction s) (auto split: option.splits sum.splits)

text \<open>
  C6, as the code has it. A character of the source text with no entry in the code table
  makes \<open>encoding\<close> raise \<open>KeyError\<close> for that character, the error of the dictionary
  lookup itself: the first such character stops the encoding, nothing is skipped and
  nothing is put in its place.
\<close>

theorem encoding_missing_symbol_raises:
  assumes "source_text self = Some (pre @ c # post)"
    and "set pre \<subseteq> dom (codes self)" and "codes self c = None"
  shows "encoding self = Inl (KeyError c)"
  using assms by (simp add: encoding_def join_codes_first_missing)

theorem encoding_missing_symbol_raises_witness:
  "init (Inl QueueError) None (Some ''10'')
     (Some (Node 2 None (Some (Node 1 (Some CHR ''a'') None None))
        (Some (Node 1 (Some CHR ''b'') None None))))
   = Inr \<lparr>root_node = Some (Node 2 None (Some (Node 1 (Some CHR ''a'') None None))
            (Some (Node 1 (Some CHR ''b'') None None))),
          encoded_text = Some ''10'', source_text = Some ''ba'', codes = Map.empty\<rparr>
   \<and> encoding \<lparr>root_node = Some (Node 2 None (Some (Node 1 (Some CHR ''a'') None None))
            (Some (Node 1 (Some CHR ''b'') None None))),
          encoded_text = Some ''10'', source_text = Some ''ba'', codes = Map.empty\<rparr>
     = Inl (KeyError CHR ''b'')"
  using encoding_missing_symbol_raises
    [of "\<lparr>root_node = Some (Node 2 None (Some (Node 1 (Some CHR ''a'') None None))
            (Some (Node 1 (Some CHR ''b'') None None))),
          encoded_text = Some ''10'', source_text = Some ''ba'', codes = Map.empty\<rparr>"
        "[]" "CHR ''b''" "''a''"]
  by (simp add: init_def decode_encoded_text_def)

text \<open>
  The claim C6 itself fails: an object constructed from the encoded stream \<open>0\<close> and a
  tree has the source text \<open>a\<close> and an empty code table, and its \<open>encoding\<close> raises
  \<open>KeyError\<close> for \<open>a\<close>; the code has no other error for a missing character.
\<close>

theorem encoding_missing_symbol_counterexample:
  "init (Inl QueueError) None (Some ''0'')
     (Some (Node 2 None (Some (Node 1 (Some CHR ''a'') None None))
        (Some (Node 1 (Some CHR ''b'') None None))))
   = Inr \<lparr>root_node = Some (Node 2 None (Some (Node 1 (Some CHR ''a'') None None))
            (Some (Node 1 (Some CHR ''b'') None None))),
          encoded_text = Some ''0'', source_text = Some ''a'', codes = Map.empty\<rparr>
   \<and> encoding \<lparr>root_node = Some (Node 2 None (Some (Node 1 (Some CHR ''a'') None None))
            (Some (Node 1 (Some CHR ''b'') None None))),
          encoded_text = Some ''0'', source_text = Some ''a'', codes = Map.empty\<rparr>
     = Inl (KeyError CHR ''a'')"
  by (simp add: init_def decode_encoded_text_def encoding_def)

section \<open>The single-symbol text\<close>

text \<open>
  C1 fails at \<open>aaaa\<close>: the tree is a single leaf, the encoded stream is empty, and decoding
  the empty stream with that tree gives the empty text, not \<open>aaaa\<close>.
\<close>

theorem round_trip_single_symbol_loses_text:
  "encode on_empty ''aaaa'' = Inr [] \<and>
   tree_of on_empty ''aaaa'' = Inr (Some (Node 4 (Some CHR ''a'') None None)) \<and>
   decode on_empty [] (Node 4 (Some CHR ''a'') None None) = Inr (Some []) \<and>
   decode on_empty [] (Node 4 (Some CHR ''a'') None None) \<noteq> Inr (Some ''aaaa'')"
  by (simp add: run_defs)

text \<open>
  C2 fails at \<open>aaaa\<close>: the code table gives \<open>a\<close> the empty code, and the encoded stream is
  empty, not four equal bits.
\<close>

theorem single_symbol_code_is_empty:
  "code_of on_empty ''aaaa'' CHR ''a'' = Inr (Some []) \<and> encode on_empty ''aaaa'' \<noteq> Inr ''0000'' \<and>
   encode on_empty ''aaaa'' \<noteq> Inr ''1111''"
  by (simp add: run_defs)

section \<open>The empty text\<close>

text \<open>
  C4, as the code has it. Constructing from the empty source text makes no check of its
  own: the frequency table and the queue are empty, the loop does not run, and the
  outcome is decided by the last \<open>del_min\<close>, on the empty queue. An error raised there is
  the error of the construction; a returned \<open>None\<close> makes the construction fail with
  \<open>AttributeError\<close>; a returned node becomes the root.
\<close>

theorem empty_source_outcome_from_queue:
  "build_huffman_tree on_empty self [] =
     (case on_empty of
        Inl e \<Rightarrow> Inl e
      | Inr None \<Rightarrow> Inl AttributeError
      | Inr (Some n) \<Rightarrow>
          (case build_dictionary n [] of
             Inl e \<Rightarrow> Inl e
           | Inr d \<Rightarrow> Inr (self\<lparr>root_node := Some n, codes := d\<rparr>)))
   \<and> init on_empty (Some []) encoded root =
       build_huffman_tree on_empty
         \<lparr>root_node = None, encoded_text = encoded, source_text = Some [], codes = Map.empty\<rparr> []"
  by (simp add: init_def build_huffman_tree_def freq_table_of_def initial_pq_def del_min_def
      split: sum.splits option.splits)

text \<open>
  The claim C4 itself fails: when the queue raises its own error on the empty queue the
  construction raises that error, and when it returns \<open>None\<close> the construction raises
  \<open>AttributeError\<close>.
\<close>

theorem empty_source_counterexample:
  "init (Inl QueueError) (Some []) None None = Inl QueueError \<and>
   init (Inr None) (Some []) None None = Inl AttributeError"
  by (simp add: init_def build_huffman_tree_def freq_table_of_def initial_pq_def del_min_def)

section \<open>The source text of an object\<close>

text \<open>
  C9 fails: every object has the attribute \<open>source_text\<close>, set by \<open>__init__\<close>, and it hides
  the method of the same name, so \<open>obj.source_text()\<close> calls a string (or \<open>None\<close>) and
  raises \<open>TypeError\<close>. The method \<open>root\<close>, whose attribute is named \<open>root_node\<close>, can be
  called.
\<close>

theorem source_text_method_is_hidden:
  "source_call on_empty ''ab'' = Inl TypeError \<and>
   call_method self ''source_text'' = Inl TypeError \<and>
   call_method self ''root'' =
     Inr (case root_node self of None \<Rightarrow> PyNone | Some n \<Rightarrow> PyNode n)"
  by (simp add: source_call_def run_defs attr_defs split: option.splits)

section \<open>The priority queue and the loop\<close>

lemma first_min_split:
  "\<exists>ys zs. m # xs = ys @ first_min m xs # zs \<and>
     (\<forall>y\<in>set ys. freq (first_min m xs) < freq y) \<and>
     (\<forall>z\<in>set zs. freq (first_min m xs) \<le> freq z)"
proof (induction xs arbitrary: m)
  case Nil
  have "[m] = [] @ first_min m [] # [] \<and>
     (\<forall>y\<in>set []. freq (first_min m []) < freq y) \<and>
     (\<forall>z\<in>set []. freq (first_min m []) \<le> freq z)" by simp
  then show ?case by blast
next
  case (Cons x xs)
  show ?case
  proof (cases "freq x < freq m")
    case True
    define k where "k = first_min x xs"
    from Cons.IH [of x] obtain ys zs where
      s: "x # xs = ys @ k # zs"
      and lo: "\<forall>y\<in>set ys. freq k < freq y"
      and hi: "\<forall>z\<in>set zs. freq k \<le> freq z" unfolding k_def by blast
    have "freq k \<le> freq x"
    proof (cases ys)
      case Nil
      with s have "k = x" by simp
      then show ?thesis by simp
    next
      case (Cons y ys')
      with s have "x \<in> set ys" by simp
      with lo show ?thesis by fastforce
    qed
    with True have km: "freq k < freq m" by simp
    have fk: "first_min m (x # xs) = k" using True k_def by simp
    have "m # x # xs = (m # ys) @ k # zs" using s by simp
    moreover have "\<forall>y\<in>set (m # ys). freq k < freq y" using lo km by simp
    ultimately show ?thesis using hi unfolding fk by blast
  next
    case False
    define k where "k = first_min m xs"
    from Cons.IH [of m] obtain ys zs where
      s: "m # xs = ys @ k # zs"
      and lo: "\<forall>y\<in>set ys. freq k < freq y"
      and hi: "\<forall>z\<in>set zs. freq k \<le> freq z" unfolding k_def by blast
    have fk: "first_min m (x # xs) = k" using False k_def by simp
    show ?thesis
    proof (cases ys)
      case Nil
      with s have km: "k = m" and zs: "zs = xs" by simp_all
      have "m # x # xs = [] @ k # (x # xs)" using km by simp
      moreover have "\<forall>z\<in>set (x # xs). freq k \<le> freq z"
        using hi zs km False by simp
      moreover have "\<forall>y\<in>set []. freq k < freq y" by simp
      ultimately show ?thesis unfolding fk by blast
    next
      case (Cons y ys')
      with s have y: "y = m" and xs: "xs = ys' @ k # zs" by simp_all
      from lo Cons y have "freq k < freq m" by simp
      with False have kx: "freq k < freq x" by simp
      have "m # x # xs = (m # x # ys') @ k # zs" using xs by simp
      moreover have "\<forall>y\<in>set (m # x # ys'). freq k < freq y"
        using lo Cons y kx by simp
      ultimately show ?thesis using hi unfolding fk by blast
    qed
  qed
qed

lemma del_min_split:
  assumes "pq \<noteq> []"
  obtains m ys zs where "del_min on_empty pq = Inr (Some m, ys @ zs)" and "pq = ys @ m # zs"
    and "\<forall>y\<in>set ys. freq m < freq y" and "\<forall>z\<in>set zs. freq m \<le> freq z"
proof -
  from assms obtain x xs where pq: "pq = x # xs" by (cases pq) auto
  define m where "m = first_min x xs"
  from first_min_split [of x xs] obtain ys zs where
    s: "pq = ys @ m # zs" and lo: "\<forall>y\<in>set ys. freq m < freq y"
    and hi: "\<forall>z\<in>set zs. freq m \<le> freq z"
    unfolding m_def pq by blast
  from lo have "m \<notin> set ys" by auto
  then have "remove1 m pq = ys @ zs" using s by (simp add: remove1_append)
  then have "del_min on_empty pq = Inr (Some m, ys @ zs)"
    using pq m_def by (simp add: del_min_def del: remove1.simps)
  then show thesis using that s lo hi by blast
qed

lemma build_loop_rule:
  assumes "I pq" and "pq \<noteq> []"
    and step: "\<And>ys l zs ys' r zs'.
      I (ys @ l # zs) \<Longrightarrow> \<forall>y\<in>set ys. freq l < freq y \<Longrightarrow> \<forall>z\<in>set zs. freq l \<le> freq z \<Longrightarrow>
      ys @ zs = ys' @ r # zs' \<Longrightarrow> \<forall>y\<in>set ys'. freq r < freq y \<Longrightarrow>
      \<forall>z\<in>set zs'. freq r \<le> freq z \<Longrightarrow>
      I (ys' @ zs' @ [merged l r])"
  shows "\<exists>root. build_loop on_empty pq = Inr [root] \<and> I [root]"
  using assms(1,2)
proof (induction "length pq" arbitrary: pq rule: less_induct)
  case less
  show ?case
  proof (cases "1 < length pq")
    case False
    with less.prems(2) obtain root where "pq = [root]"
      by (cases pq) auto
    with less.prems(1) show ?thesis by (simp add: build_loop.simps [of on_empty "[root]"])
  next
    case True
    from less.prems(2) obtain l ys zs where
      d1: "del_min on_empty pq = Inr (Some l, ys @ zs)" and s1: "pq = ys @ l # zs"
      and lo1: "\<forall>y\<in>set ys. freq l < freq y" and hi1: "\<forall>z\<in>set zs. freq l \<le> freq z"
      by (rule del_min_split)
    from True s1 have "ys @ zs \<noteq> []" by auto
    then obtain r ys' zs' where
      d2: "del_min on_empty (ys @ zs) = Inr (Some r, ys' @ zs')"
      and s2: "ys @ zs = ys' @ r # zs'"
      and lo2: "\<forall>y\<in>set ys'. freq r < freq y" and hi2: "\<forall>z\<in>set zs'. freq r \<le> freq z"
      by (rule del_min_split)
    let ?pq' = "ys' @ zs' @ [merged l r]"
    have I': "I ?pq'" using step less.prems(1) s1 lo1 hi1 s2 lo2 hi2 by blast
    have "length (ys @ zs) = Suc (length (ys' @ zs'))" using s2 by simp
    then have len: "length ?pq' < length pq" using s1 by simp
    have "build_loop on_empty pq = build_loop on_empty ?pq'"
      using True d1 d2 by (subst build_loop.simps) (simp add: pq_insert_def merged_def)
    moreover have "\<exists>root. build_loop on_empty ?pq' = Inr [root] \<and> I [root]"
      using less.hyps [OF len I'] by simp
    ultimately show ?thesis by simp
  qed
qed

section \<open>The frequency table and the initial queue\<close>

lemma map_of_count_char:
  "map_of (count_char t c) = (map_of t)(c \<mapsto> (case map_of t c of None \<Rightarrow> 1 | Some v \<Rightarrow> v + 1))"
  by (induction t c rule: count_char.induct) (auto simp: fun_eq_iff)

lemma keys_count_char:
  "map fst (count_char t c) = (if c \<in> set (map fst t) then map fst t else map fst t @ [c])"
  by (induction t c rule: count_char.induct) auto

lemma distinct_count_char:
  "distinct (map fst t) \<Longrightarrow> distinct (map fst (count_char t c))"
  by (simp add: keys_count_char)

lemma distinct_foldl_count_char:
  "distinct (map fst t) \<Longrightarrow> distinct (map fst (foldl count_char t s))"
  by (induction s arbitrary: t) (simp_all add: distinct_count_char)

lemma map_of_foldl_count_char:
  "map_of (foldl count_char t s) c =
     (if c \<in> set s
      then Some ((case map_of t c of None \<Rightarrow> 0 | Some v \<Rightarrow> v) + int (count_list s c))
      else map_of t c)"
proof (induction s arbitrary: t)
  case Nil
  show ?case by simp
next
  case (Cons x s)
  show ?case
    by (simp add: Cons.IH map_of_count_char split: option.splits)
qed

lemma distinct_freq_table: "distinct (map fst (freq_table_of src))"
  by (simp add: freq_table_of_def distinct_foldl_count_char)

lemma map_of_freq_table:
  "map_of (freq_table_of src) c = (if c \<in> set src then Some (int (count_list src c)) else None)"
  by (simp add: freq_table_of_def map_of_foldl_count_char)

lemma keys_freq_table: "set (map fst (freq_table_of src)) = set src"
proof -
  have "dom (map_of (freq_table_of src)) = set src"
    by (auto simp: map_of_freq_table dom_def split: if_splits)
  then show ?thesis by (simp add: dom_map_of_conv_image_fst)
qed

lemma freq_table_entry:
  "(c, f) \<in> set (freq_table_of src) \<longleftrightarrow> c \<in> set src \<and> f = int (count_list src c)"
proof -
  have "(c, f) \<in> set (freq_table_of src) \<longleftrightarrow> map_of (freq_table_of src) c = Some f"
    using distinct_freq_table by simp
  then show ?thesis by (auto simp: map_of_freq_table)
qed

lemma freq_table_nonempty: "src \<noteq> [] \<Longrightarrow> freq_table_of src \<noteq> []"
  using keys_freq_table [of src] by auto

lemma foldl_pq_insert:
  "foldl (\<lambda>pq (c, f). pq_insert (Node f (Some c) None None) pq) acc t
   = acc @ map (\<lambda>(c, f). Node f (Some c) None None) t"
  by (induction t arbitrary: acc) (auto simp: pq_insert_def)

lemma initial_pq_map: "initial_pq t = map (\<lambda>(c, f). Node f (Some c) None None) t"
  by (simp add: initial_pq_def foldl_pq_insert)

lemma forest_table_simps [simp]:
  "forest_table [] = []"
  "forest_table (n # pq) = leaf_table n @ forest_table pq"
  "forest_table (xs @ ys) = forest_table xs @ forest_table ys"
  by (simp_all add: forest_table_def)

lemma leaf_table_merged [simp]: "leaf_table (merged l r) = leaf_table l @ leaf_table r"
  by (simp add: merged_def)

lemma well_formed_merged [simp]:
  "well_formed (merged l r) \<longleftrightarrow> well_formed l \<and> well_formed r"
  by (simp add: merged_def)

lemma forest_table_initial: "forest_table (initial_pq t) = t"
  by (induction t) (auto simp: initial_pq_map)

lemma forest_ok_initial: "forest_ok t (initial_pq t)"
proof -
  have "\<forall>n\<in>set (initial_pq t). well_formed n" by (auto simp: initial_pq_map)
  then show ?thesis by (simp add: forest_ok_def forest_table_initial)
qed

lemma forest_ok_step:
  assumes "forest_ok t (ys @ l # zs)" and "ys @ zs = ys' @ r # zs'"
  shows "forest_ok t (ys' @ zs' @ [merged l r])"
proof -
  have set_eq: "set (ys @ zs) = set (ys' @ r # zs')" by (simp only: assms(2))
  have tab_eq: "mset (forest_table (ys @ zs)) = mset (forest_table (ys' @ r # zs'))"
    by (simp only: assms(2))
  from assms(1) have wf: "\<forall>n\<in>set (ys @ zs). well_formed n" and l: "well_formed l"
    by (auto simp: forest_ok_def)
  from wf set_eq have "well_formed r" "\<forall>n\<in>set (ys' @ zs'). well_formed n" by auto
  with l have 1: "\<forall>n\<in>set (ys' @ zs' @ [merged l r]). well_formed n" by auto
  from assms(1) have "mset t = mset (forest_table (ys @ zs)) + mset (leaf_table l)"
    by (simp add: forest_ok_def ac_simps)
  with tab_eq have "mset (forest_table (ys' @ zs' @ [merged l r])) = mset t" by simp
  with 1 show ?thesis by (simp add: forest_ok_def)
qed

lemma build_loop_forest_ok:
  assumes "t \<noteq> []"
  shows "\<exists>root. build_loop on_empty (initial_pq t) = Inr [root] \<and> well_formed root \<and>
           mset (leaf_table root) = mset t"
proof -
  have ne: "initial_pq t \<noteq> []" using assms by (simp add: initial_pq_map)
  have "\<exists>root. build_loop on_empty (initial_pq t) = Inr [root] \<and> forest_ok t [root]"
    by (rule build_loop_rule [where I = "forest_ok t", OF forest_ok_initial ne])
       (rule forest_ok_step)
  then show ?thesis by (auto simp: forest_ok_def)
qed

section \<open>The code table of a built tree\<close>

lemma build_dictionary_total:
  "well_formed t \<Longrightarrow> \<exists>d. build_dictionary t pfx = Inr d \<and> dom d = set (leaf_chars t)"
proof (induction t arbitrary: pfx rule: well_formed.induct)
  case (1 f c l r)
  show ?case
  proof (cases c)
    case (Some ch)
    then show ?thesis by (simp add: leaf_chars_def)
  next
    case None
    with "1.prems" obtain ln rn where l: "l = Some ln" and r: "r = Some rn"
      and wl: "well_formed ln" and wr: "well_formed rn"
      by (auto split: option.splits)
    from "1.IH"(1) [OF None l r wl] obtain d1 where
      d1: "build_dictionary ln (pfx @ ''0'') = Inr d1" "dom d1 = set (leaf_chars ln)" by blast
    from "1.IH"(2) [OF None l r wr] obtain d2 where
      d2: "build_dictionary rn (pfx @ ''1'') = Inr d2" "dom d2 = set (leaf_chars rn)" by blast
    from None l r d1 d2 show ?thesis by (auto simp: leaf_chars_def)
  qed
qed

lemma build_dictionary_prefix:
  "build_dictionary t pfx = Inr d \<Longrightarrow> d c = Some p \<Longrightarrow> prefix pfx p"
proof (induction t pfx arbitrary: d rule: build_dictionary.induct)
  case (1 f ch l r pfx)
  show ?case
  proof (cases ch)
    case (Some x)
    with "1.prems" show ?thesis by (auto split: if_splits)
  next
    case None
    with "1.prems"(1) obtain ln rn d1 d2 where l: "l = Some ln" and r: "r = Some rn"
      and d1: "build_dictionary ln (pfx @ ''0'') = Inr d1"
      and d2: "build_dictionary rn (pfx @ ''1'') = Inr d2"
      and d: "d = d1 ++ d2"
      by (auto split: option.splits sum.splits)
    from "1.prems"(2) d have "d2 c = Some p \<or> d1 c = Some p"
      by (auto simp: map_add_Some_iff)
    then show ?thesis
    proof
      assume "d2 c = Some p"
      from "1.IH"(2) [OF None l d1 r d2 this] show ?thesis
        by (auto dest: append_prefixD)
    next
      assume "d1 c = Some p"
      from "1.IH"(1) [OF None l d1 this] show ?thesis
        by (auto dest: append_prefixD)
    qed
  qed
qed

lemma prefix_zero_one:
  assumes "prefix (pfx @ ''0'') pa" and "prefix (pfx @ ''1'') pb"
  shows "\<not> prefix pa pb" and "\<not> prefix pb pa"
proof -
  from assms obtain ra rb where pa: "pa = pfx @ ''0'' @ ra" and pb: "pb = pfx @ ''1'' @ rb"
    by (auto simp: prefix_def)
  show "\<not> prefix pa pb" unfolding pa pb by (auto simp: prefix_def)
  show "\<not> prefix pb pa" unfolding pa pb by (auto simp: prefix_def)
qed

lemma build_dictionary_prefix_free:
  "build_dictionary t pfx = Inr d \<Longrightarrow> a \<noteq> b \<Longrightarrow> d a = Some pa \<Longrightarrow> d b = Some pb \<Longrightarrow>
   \<not> prefix pa pb"
proof (induction t pfx arbitrary: d rule: build_dictionary.induct)
  case (1 f ch l r pfx)
  show ?case
  proof (cases ch)
    case (Some x)
    with "1.prems" show ?thesis by (auto split: if_splits)
  next
    case None
    with "1.prems"(1) obtain ln rn d1 d2 where l: "l = Some ln" and r: "r = Some rn"
      and d1: "build_dictionary ln (pfx @ ''0'') = Inr d1"
      and d2: "build_dictionary rn (pfx @ ''1'') = Inr d2"
      and d: "d = d1 ++ d2"
      by (auto split: option.splits sum.splits)
    from "1.prems"(3) d have a: "d2 a = Some pa \<or> d1 a = Some pa"
      by (auto simp: map_add_Some_iff)
    from "1.prems"(4) d have b: "d2 b = Some pb \<or> d1 b = Some pb"
      by (auto simp: map_add_Some_iff)
    note p1 = build_dictionary_prefix [OF d1] and p2 = build_dictionary_prefix [OF d2]
    from a b show ?thesis
    proof (elim disjE)
      assume "d2 a = Some pa" "d2 b = Some pb"
      then show ?thesis using "1.IH"(2) [OF None l d1 r d2 "1.prems"(2)] by blast
    next
      assume "d1 a = Some pa" "d1 b = Some pb"
      then show ?thesis using "1.IH"(1) [OF None l d1 "1.prems"(2)] by blast
    next
      assume "d2 a = Some pa" "d1 b = Some pb"
      then show ?thesis using prefix_zero_one(2) [OF p1 p2] by blast
    next
      assume "d1 a = Some pa" "d2 b = Some pb"
      then show ?thesis using prefix_zero_one(1) [OF p1 p2] by blast
    qed
  qed
qed

lemma del_min_single: "del_min on_empty [root] = Inr (Some root, [])"
  by (simp add: del_min_def)

lemma build_huffman_tree_result:
  assumes "src \<noteq> []"
  shows "\<exists>root d. build_loop on_empty (initial_pq (freq_table_of src)) = Inr [root] \<and>
     well_formed root \<and> mset (leaf_table root) = mset (freq_table_of src) \<and>
     build_dictionary root [] = Inr d \<and> dom d = set src \<and>
     (\<forall>self. build_huffman_tree on_empty self src = Inr (self\<lparr>root_node := Some root, codes := d\<rparr>))"
proof -
  from build_loop_forest_ok [OF freq_table_nonempty [OF assms]] obtain root where
    root: "build_loop on_empty (initial_pq (freq_table_of src)) = Inr [root]" "well_formed root"
      "mset (leaf_table root) = mset (freq_table_of src)" by blast
  from build_dictionary_total [OF root(2)] obtain d where
    d: "build_dictionary root [] = Inr d" "dom d = set (leaf_chars root)" by blast
  have "set (leaf_table root) = set (freq_table_of src)"
    using root(3) by (rule mset_eq_setD)
  then have "set (leaf_chars root) = set src"
    using keys_freq_table [of src] by (simp add: leaf_chars_def)
  with d have dom: "dom d = set src" by simp
  have "build_huffman_tree on_empty self src = Inr (self\<lparr>root_node := Some root, codes := d\<rparr>)" for self
    using root(1) d(1) by (simp add: build_huffman_tree_def del_min_single)
  with root d(1) dom show ?thesis by blast
qed

lemma init_from_source:
  "init on_empty (Some src) encoded r0 =
     build_huffman_tree on_empty \<lparr>root_node = None, encoded_text = encoded, source_text = Some src,
        codes = Map.empty\<rparr> src"
  by (simp add: init_def)

text \<open>
  C7. The tree built from a non-empty source text is well formed: every node is either a
  leaf, with a character and no children, or an internal node, with both children and no
  character, and the frequency of an internal node is the sum of its children's.
\<close>

theorem built_tree_well_formed:
  assumes "src \<noteq> []"
  shows "\<exists>root. tree_of on_empty src = Inr (Some root) \<and> well_formed root"
proof -
  from build_huffman_tree_result [OF assms] obtain root d where "well_formed root"
    and "\<forall>self. build_huffman_tree on_empty self src = Inr (self\<lparr>root_node := Some root, codes := d\<rparr>)"
    by blast
  then show ?thesis by (simp add: tree_of_def init_from_source)
qed

theorem built_tree_well_formed_witness:
  "\<exists>root. tree_of (Inl QueueError) ''abracadabra'' = Inr (Some root) \<and> well_formed root"
  using built_tree_well_formed [of "''abracadabra''"] by simp

text \<open>
  C3. For a non-empty source text the code table is prefix-free: the codes of two
  different characters are never a prefix of one another. The leaves of the tree carry
  the characters of the text, each once, and the code table has exactly these characters
  as its keys, so every leaf character has one code.
\<close>

theorem code_table_prefix_free:
  assumes "src \<noteq> []"
  shows "\<exists>root d. tree_of on_empty src = Inr (Some root) \<and> code_table on_empty src = Inr d \<and>
           distinct (leaf_chars root) \<and> set (leaf_chars root) = set src \<and> dom d = set src \<and>
           (\<forall>a b pa pb. a \<noteq> b \<and> d a = Some pa \<and> d b = Some pb \<longrightarrow> \<not> prefix pa pb)"
proof -
  from build_huffman_tree_result [OF assms] obtain root d where
    m: "mset (leaf_table root) = mset (freq_table_of src)"
    and d: "build_dictionary root [] = Inr d" and dom: "dom d = set src"
    and b: "\<forall>self. build_huffman_tree on_empty self src = Inr (self\<lparr>root_node := Some root, codes := d\<rparr>)"
    by blast
  have "mset (leaf_chars root) = mset (map fst (freq_table_of src))"
    unfolding leaf_chars_def using m by (metis mset_map)
  then have "distinct (leaf_chars root)" "set (leaf_chars root) = set src"
    using distinct_freq_table [of src] keys_freq_table [of src]
    by (metis mset_eq_imp_distinct_iff, metis mset_eq_setD)
  moreover have "\<forall>a b pa pb. a \<noteq> b \<and> d a = Some pa \<and> d b = Some pb \<longrightarrow> \<not> prefix pa pb"
    using build_dictionary_prefix_free [OF d] by blast
  ultimately show ?thesis using b dom
    by (simp add: tree_of_def code_table_def init_from_source)
qed

theorem code_table_prefix_free_witness:
  "\<exists>root d. tree_of (Inl QueueError) ''abracadabra'' = Inr (Some root) \<and>
     code_table (Inl QueueError) ''abracadabra'' = Inr d \<and>
     distinct (leaf_chars root) \<and> set (leaf_chars root) = set ''abracadabra'' \<and>
     dom d = set ''abracadabra'' \<and>
     (\<forall>a b pa pb. a \<noteq> b \<and> d a = Some pa \<and> d b = Some pb \<longrightarrow> \<not> prefix pa pb)"
  by (rule code_table_prefix_free) simp

section \<open>The levels of the built tree\<close>

lemma flevel_simps [simp]:
  "flevel k [] = []"
  "flevel k (n # pq) = level k n @ flevel k pq"
  "flevel k (xs @ ys) = flevel k xs @ flevel k ys"
  "flevel 0 pq = pq"
  by (simp_all add: flevel_def) (induction pq; simp)

lemma level_merged [simp]: "level (Suc k) (merged l r) = level k l @ level k r"
  by (simp add: merged_def)

lemma level_leaf: "well_formed n \<Longrightarrow> is_leaf n \<Longrightarrow> level (Suc k) n = []"
  by (cases n) (auto simp: is_leaf_def)

lemma flevel_leaves:
  "\<forall>n\<in>set pq. well_formed n \<and> is_leaf n \<Longrightarrow> flevel (Suc k) pq = []"
  by (induction pq) (simp_all add: level_leaf del: level.simps)

lemma follow_leaf:
  "well_formed n \<Longrightarrow> is_leaf n \<Longrightarrow> follow n q = Some m \<Longrightarrow> q = [] \<and> m = n"
  by (cases n; cases q) (auto simp: is_leaf_def split: if_splits)

lemma follow_level: "follow n q = Some m \<Longrightarrow> m \<in> set (level (length q) n)"
proof (induction q arbitrary: n)
  case Nil
  then show ?case by simp
next
  case (Cons b bs)
  from Cons.prems obtain n' where
    n': "(if b = CHR ''0'' then left n else right n) = Some n'"
    and f: "(if is_leaf n' then (if bs = [] then Some n' else None) else follow n' bs) = Some m"
    by (auto split: option.splits)
  have "follow n' bs = Some m" using f by (auto split: if_splits)
  from Cons.IH [OF this] have "m \<in> set (level (length bs) n')" .
  with n' show ?case by (auto split: if_splits)
qed

lemma well_formed_freq_pos:
  "well_formed n \<Longrightarrow> \<forall>e\<in>set (leaf_table n). 0 < snd e \<Longrightarrow> 0 < freq n"
proof (induction n rule: well_formed.induct)
  case (1 f c l r)
  show ?case
  proof (cases c)
    case (Some ch)
    with "1.prems" show ?thesis by simp
  next
    case None
    with "1.prems"(1) obtain ln rn where l: "l = Some ln" and r: "r = Some rn"
      and wl: "well_formed ln" and wr: "well_formed rn" and f: "f = freq ln + freq rn"
      by (auto split: option.splits)
    from "1.prems"(2) None l r have "\<forall>e\<in>set (leaf_table ln). 0 < snd e"
      "\<forall>e\<in>set (leaf_table rn). 0 < snd e" by auto
    with "1.IH"(1) [OF None l r wl] "1.IH"(2) [OF None l r wr] f show ?thesis by simp
  qed
qed

lemma level_sub:
  "m \<in> set (level k n) \<Longrightarrow> well_formed n \<Longrightarrow>
   well_formed m \<and> set (leaf_table m) \<subseteq> set (leaf_table n)"
proof (induction k arbitrary: n)
  case 0
  then show ?case by simp
next
  case (Suc k)
  obtain f c l r where n: "n = Node f c l r" by (cases n)
  show ?case
  proof (cases c)
    case (Some ch)
    with Suc.prems n show ?thesis by simp
  next
    case None
    with Suc.prems(2) n obtain ln rn where l: "l = Some ln" and r: "r = Some rn"
      and wl: "well_formed ln" and wr: "well_formed rn"
      by (auto split: option.splits)
    from Suc.prems(1) n l r have "m \<in> set (level k ln) \<or> m \<in> set (level k rn)" by auto
    then show ?thesis
    proof
      assume "m \<in> set (level k ln)"
      from Suc.IH [OF this wl] show ?thesis using n None l r by auto
    next
      assume "m \<in> set (level k rn)"
      from Suc.IH [OF this wr] show ?thesis using n None l r by auto
    qed
  qed
qed

lemma level_parent:
  assumes "a \<in> set (level (Suc j) n)" and "well_formed n"
    and "\<forall>e\<in>set (leaf_table n). 0 < snd e"
  shows "\<exists>p\<in>set (level j n). freq a \<le> freq p"
  using assms
proof (induction j arbitrary: n)
  case 0
  obtain f c l r where n: "n = Node f c l r" by (cases n)
  show ?case
  proof (cases c)
    case (Some ch)
    with "0.prems" n show ?thesis by simp
  next
    case None
    with "0.prems"(2) n obtain ln rn where l: "l = Some ln" and r: "r = Some rn"
      and wl: "well_formed ln" and wr: "well_formed rn" and f: "f = freq ln + freq rn"
      by (auto split: option.splits)
    from "0.prems"(3) n None l r have "\<forall>e\<in>set (leaf_table ln). 0 < snd e"
      "\<forall>e\<in>set (leaf_table rn). 0 < snd e" by auto
    with wl wr have "0 < freq ln" "0 < freq rn" by (simp_all add: well_formed_freq_pos)
    with "0.prems"(1) n l r f show ?thesis by auto
  qed
next
  case (Suc j)
  obtain f c l r where n: "n = Node f c l r" by (cases n)
  show ?case
  proof (cases c)
    case (Some ch)
    with Suc.prems n show ?thesis by simp
  next
    case None
    with Suc.prems(2) n obtain ln rn where l: "l = Some ln" and r: "r = Some rn"
      and wl: "well_formed ln" and wr: "well_formed rn"
      by (auto split: option.splits)
    from Suc.prems(3) n None l r have pl: "\<forall>e\<in>set (leaf_table ln). 0 < snd e"
      and pr: "\<forall>e\<in>set (leaf_table rn). 0 < snd e" by auto
    from Suc.prems(1) n l r
    have "a \<in> set (level (Suc j) ln) \<or> a \<in> set (level (Suc j) rn)" by auto
    then show ?thesis
    proof
      assume "a \<in> set (level (Suc j) ln)"
      from Suc.IH [OF this wl pl] show ?thesis using n l r by auto
    next
      assume "a \<in> set (level (Suc j) rn)"
      from Suc.IH [OF this wr pr] show ?thesis using n l r by auto
    qed
  qed
qed

lemma flevel_parent:
  assumes "a \<in> set (flevel (Suc j) pq)" and "\<forall>n\<in>set pq. well_formed n"
    and "\<forall>e\<in>set (forest_table pq). 0 < snd e"
  shows "\<exists>p\<in>set (flevel j pq). freq a \<le> freq p"
proof -
  from assms(1) obtain n where n: "n \<in> set pq" "a \<in> set (level (Suc j) n)"
    by (auto simp: flevel_def)
  with assms(2,3) have "well_formed n" "\<forall>e\<in>set (leaf_table n). 0 < snd e"
    by (auto simp: forest_table_def)
  from level_parent [OF n(2) this] obtain p where "p \<in> set (level j n)" "freq a \<le> freq p"
    by blast
  with n(1) show ?thesis by (auto simp: flevel_def)
qed

lemma sorted_wrt_all:
  "(\<And>x y. x \<in> set xs \<Longrightarrow> y \<in> set xs \<Longrightarrow> R x y) \<Longrightarrow> sorted_wrt R xs"
  by (induction xs) auto

lemma sorted_wrt_cross:
  "sorted_wrt R (xs @ ys) \<Longrightarrow> x \<in> set xs \<Longrightarrow> y \<in> set ys \<Longrightarrow> R x y"
  by (simp add: sorted_wrt_append)

lemma sorted_wrt_left: "sorted_wrt R (xs @ ys) \<Longrightarrow> sorted_wrt R xs"
  by (simp add: sorted_wrt_append)

lemma sorted_wrt_right: "sorted_wrt R (xs @ ys) \<Longrightarrow> sorted_wrt R ys"
  by (simp add: sorted_wrt_append)

lemma sorted_wrt_remove: "sorted_wrt R (xs @ x # ys) \<Longrightarrow> sorted_wrt R (xs @ ys)"
  by (simp add: sorted_wrt_append)

lemma sorted_wrt_mid:
  "sorted_wrt R (xs @ x # ys) \<Longrightarrow> (\<forall>a\<in>set xs. R a x) \<and> (\<forall>b\<in>set ys. R x b)"
  by (simp add: sorted_wrt_append)

lemma sorted_wrt_snoc:
  "sorted_wrt R xs \<Longrightarrow> (\<And>x. x \<in> set xs \<Longrightarrow> R x y) \<Longrightarrow> sorted_wrt R (xs @ [y])"
  by (simp add: sorted_wrt_append)

lemma sorted_wrt_join:
  "sorted_wrt R xs \<Longrightarrow> sorted_wrt R ys \<Longrightarrow>
   (\<And>x y. x \<in> set xs \<Longrightarrow> y \<in> set ys \<Longrightarrow> R x y) \<Longrightarrow> sorted_wrt R (xs @ ys)"
  by (simp add: sorted_wrt_append)

lemma forest_roots_pos:
  assumes "forest_ok t pq" and "\<forall>e\<in>set t. 0 < snd e" and "n \<in> set pq"
  shows "0 < freq n"
proof -
  from assms(1,3) have wf: "well_formed n" by (simp add: forest_ok_def)
  from assms(1) have "set (forest_table pq) = set t"
    unfolding forest_ok_def by (metis mset_eq_setD)
  moreover from assms(3) have "set (leaf_table n) \<subseteq> set (forest_table pq)"
    by (auto simp: forest_table_def)
  ultimately have "\<forall>e\<in>set (leaf_table n). 0 < snd e" using assms(2) by blast
  with wf show ?thesis by (rule well_formed_freq_pos)
qed

lemma level_inv_step:
  assumes inv: "level_inv (ys @ l # zs)" and ok: "forest_ok t (ys @ l # zs)"
    and pos: "\<forall>e\<in>set t. 0 < snd e"
    and lo1: "\<forall>y\<in>set ys. freq l < freq y" and hi1: "\<forall>z\<in>set zs. freq l \<le> freq z"
    and s2: "ys @ zs = ys' @ r # zs'"
    and lo2: "\<forall>y\<in>set ys'. freq r < freq y" and hi2: "\<forall>z\<in>set zs'. freq r \<le> freq z"
  shows "level_inv (ys' @ zs' @ [merged l r])"
proof -
  let ?pq = "ys @ l # zs"
  let ?P = "merged l r"
  let ?Q = "\<lambda>a b. \<not> is_leaf a \<longrightarrow> \<not> is_leaf b \<and> freq a \<le> freq b"
  let ?W = "\<lambda>a b. freq a \<le> freq b"
  from inv have S: "sorted_wrt ?Q ?pq"
    and L: "\<And>k. sorted_wrt ?W (flevel (Suc k) ?pq)"
    and D: "\<And>k a b. a \<in> set (flevel (Suc k) ?pq) \<Longrightarrow> b \<in> set (flevel k ?pq) \<Longrightarrow>
        freq a \<le> freq b"
    and F: "\<And>q. q \<in> set ?pq \<Longrightarrow> \<not> is_leaf q \<Longrightarrow>
        sorted_wrt (\<lambda>T U. freq q \<le> freq T + freq U) ?pq"
    unfolding level_inv_def by blast+
  from ok have wf: "\<forall>n\<in>set ?pq. well_formed n" by (simp add: forest_ok_def)
  have tabpos: "\<forall>e\<in>set (forest_table ?pq). 0 < snd e"
  proof -
    from ok have "set (forest_table ?pq) = set t"
      unfolding forest_ok_def by (metis mset_eq_setD)
    with pos show ?thesis by blast
  qed
  have rpos: "0 < freq n" if "n \<in> set ?pq" for n
    using forest_roots_pos [OF ok pos that] .
  have set2: "set (ys @ zs) = set (ys' @ r # zs')" by (simp only: s2)
  then have r_in: "r \<in> set ys \<or> r \<in> set zs" by auto
  from set2 have sub: "set ys' \<union> set zs' \<subseteq> set ys \<union> set zs" by auto
  then have sub_pq: "set ys' \<union> set zs' \<subseteq> set ?pq" by auto
  have l_in: "l \<in> set ?pq" by simp
  have r_pq: "r \<in> set ?pq" using r_in by auto
  have lpos: "0 < freq l" using rpos l_in by blast
  have rpos': "0 < freq r" using rpos r_pq by blast
  have lr: "freq l \<le> freq r" using r_in lo1 hi1 by fastforce
  have l_min: "freq l \<le> freq T" if "T \<in> set ys' \<union> set zs'" for T
    using that sub lo1 hi1 by fastforce
  have r_min: "freq r \<le> freq T" if "T \<in> set ys' \<union> set zs'" for T
    using that lo2 hi2 by fastforce
  have P_leaf: "\<not> is_leaf ?P" by (simp add: merged_def is_leaf_def)
  have P_freq: "freq ?P = freq l + freq r" by (simp add: merged_def)
  \<comment> \<open>the nodes before the two removed ones are leaves\<close>
  have ys_leaf: "is_leaf y" if "y \<in> set ys" for y
  proof (rule ccontr)
    assume "\<not> is_leaf y"
    moreover from sorted_wrt_mid [OF S] that have "?Q y l" by blast
    ultimately have "freq y \<le> freq l" by blast
    moreover from lo1 that have "freq l < freq y" by blast
    ultimately show False by simp
  qed
  from S have S1: "sorted_wrt ?Q (ys @ zs)" by (rule sorted_wrt_remove)
  then have S1': "sorted_wrt ?Q (ys' @ r # zs')" by (simp only: s2)
  have ys'_leaf: "is_leaf y" if "y \<in> set ys'" for y
  proof (rule ccontr)
    assume "\<not> is_leaf y"
    moreover from sorted_wrt_mid [OF S1'] that have "?Q y r" by blast
    ultimately have "freq y \<le> freq r" by blast
    moreover from lo2 that have "freq r < freq y" by blast
    ultimately show False by simp
  qed
  have fl: "flevel (Suc k) ys = []" for k
    using ys_leaf wf by (intro flevel_leaves) auto
  have fl': "flevel (Suc k) ys' = []" for k
    using ys'_leaf wf sub_pq by (intro flevel_leaves) auto
  have zs_eq: "flevel (Suc k) zs = level (Suc k) r @ flevel (Suc k) zs'" for k
  proof -
    have "flevel (Suc k) (ys @ zs) = flevel (Suc k) (ys' @ r # zs')" by (simp only: s2)
    then show ?thesis using fl [of k] fl' [of k] by (simp del: level.simps)
  qed
  have E1: "flevel (Suc k) ?pq = level (Suc k) l @ level (Suc k) r @ flevel (Suc k) zs'" for k
    using fl [of k] zs_eq [of k] by (simp del: level.simps)
  have N1: "flevel (Suc k) (ys' @ zs' @ [?P]) = flevel (Suc k) zs' @ level k l @ level k r" for k
    using fl' [of k] by (simp del: level.simps)
  have M1: "set (level k l) \<union> set (level k r) \<subseteq> set (flevel k ?pq)" for k
  proof (cases k)
    case 0
    then show ?thesis using l_in r_pq by simp
  next
    case (Suc j)
    then show ?thesis by (simp only: E1) auto
  qed
  have M2: "set (flevel (Suc k) zs') \<subseteq> set (flevel (Suc k) ?pq)" for k
    by (simp only: E1) auto
  \<comment> \<open>an internal root is no heavier than the new parent\<close>
  have FP: "freq q \<le> freq l + freq r" if "q \<in> set ?pq" and "\<not> is_leaf q" for q
  proof -
    from F [OF that] have R: "sorted_wrt (\<lambda>T U. freq q \<le> freq T + freq U) ?pq" .
    from r_in show ?thesis
    proof
      assume "r \<in> set ys"
      with sorted_wrt_mid [OF R] have "freq q \<le> freq r + freq l" by blast
      then show ?thesis by simp
    next
      assume "r \<in> set zs"
      with sorted_wrt_mid [OF R] show ?thesis by blast
    qed
  qed
  \<comment> \<open>the four parts of the invariant\<close>
  have S': "sorted_wrt ?Q (ys' @ zs' @ [?P])"
  proof -
    from S1' have 1: "sorted_wrt ?Q (ys' @ zs')" by (rule sorted_wrt_remove)
    have 2: "?Q a ?P" if "a \<in> set (ys' @ zs')" for a
    proof
      assume "\<not> is_leaf a"
      moreover from that sub_pq have "a \<in> set ?pq" by auto
      ultimately have "freq a \<le> freq l + freq r" by (rule FP [rotated])
      with P_leaf P_freq show "\<not> is_leaf ?P \<and> freq a \<le> freq ?P" by simp
    qed
    from sorted_wrt_snoc [of ?Q "ys' @ zs'" ?P, OF 1 2] show ?thesis by simp
  qed
  have L': "sorted_wrt ?W (flevel (Suc k) (ys' @ zs' @ [?P]))" for k
  proof -
    from L [of k] have L0: "sorted_wrt ?W ((level (Suc k) l @ level (Suc k) r) @ flevel (Suc k) zs')"
      unfolding E1 by (simp only: append_assoc)
    then have 1: "sorted_wrt ?W (flevel (Suc k) zs')" by (rule sorted_wrt_right)
    have 2: "sorted_wrt ?W (level k l @ level k r)"
    proof (cases k)
      case 0
      then show ?thesis using lr by simp
    next
      case (Suc j)
      from L [of j] have "sorted_wrt ?W ((level (Suc j) l @ level (Suc j) r) @ flevel (Suc j) zs')"
        unfolding E1 by (simp only: append_assoc)
      then show ?thesis unfolding Suc by (rule sorted_wrt_left)
    qed
    have 3: "freq a \<le> freq b"
      if "a \<in> set (flevel (Suc k) zs')" and "b \<in> set (level k l) \<union> set (level k r)" for a b
      using D [of a k b] M1 [of k] M2 [of k] that by blast
    show ?thesis unfolding N1
      by (rule sorted_wrt_join [OF 1 2]) (rule 3, simp_all del: level.simps)
  qed
  have D': "freq a \<le> freq b"
    if a: "a \<in> set (flevel (Suc k) (ys' @ zs' @ [?P]))"
      and b: "b \<in> set (flevel k (ys' @ zs' @ [?P]))" for k a b
  proof -
    from a fl' [of k]
    have a': "a \<in> set (flevel (Suc k) zs') \<or> a \<in> set (level k l) \<union> set (level k r)"
      by (auto simp del: level.simps)
    show ?thesis
    proof (cases k)
      case 0
      from b 0 have b': "b \<in> set ys' \<union> set zs' \<or> b = ?P" by auto
      from a' show ?thesis
      proof
        assume az: "a \<in> set (flevel (Suc k) zs')"
        then have "a \<in> set (flevel (Suc 0) ?pq)" using M2 [of 0] 0 by blast
        then have al: "freq a \<le> freq n" if "n \<in> set ?pq" for n
          using D [of a 0 n] that by simp
        from b' show ?thesis
        proof
          assume "b \<in> set ys' \<union> set zs'"
          then show ?thesis using al sub_pq by blast
        next
          assume "b = ?P"
          then show ?thesis using al [OF l_in] rpos' P_freq by simp
        qed
      next
        assume "a \<in> set (level k l) \<union> set (level k r)"
        with 0 have alr: "a = l \<or> a = r" by auto
        from b' show ?thesis
        proof
          assume "b \<in> set ys' \<union> set zs'"
          then show ?thesis using alr r_min [of b] lr by auto
        next
          assume "b = ?P"
          then show ?thesis using alr lpos rpos' P_freq by auto
        qed
      qed
    next
      case (Suc j)
      from b Suc fl' [of j]
      have b': "b \<in> set (flevel (Suc j) zs') \<or> b \<in> set (level j l) \<union> set (level j r)"
        by (auto simp del: level.simps)
      from a' show ?thesis
      proof
        assume az: "a \<in> set (flevel (Suc k) zs')"
        then have a_old: "a \<in> set (flevel (Suc (Suc j)) ?pq)" using M2 [of k] Suc by blast
        from b' show ?thesis
        proof
          assume "b \<in> set (flevel (Suc j) zs')"
          then have "b \<in> set (flevel (Suc j) ?pq)" using M2 [of j] by blast
          with a_old show ?thesis by (rule D)
        next
          assume "b \<in> set (level j l) \<union> set (level j r)"
          then have b_old: "b \<in> set (flevel j ?pq)" using M1 [of j] by blast
          from flevel_parent [OF a_old wf tabpos] obtain p where
            p: "p \<in> set (flevel (Suc j) ?pq)" "freq a \<le> freq p" by blast
          from D [OF p(1) b_old] p(2) show ?thesis by simp
        qed
      next
        assume alr: "a \<in> set (level k l) \<union> set (level k r)"
        from b' show ?thesis
        proof
          assume bz: "b \<in> set (flevel (Suc j) zs')"
          from L [of j] have
            "sorted_wrt ?W ((level (Suc j) l @ level (Suc j) r) @ flevel (Suc j) zs')"
            unfolding E1 by (simp only: append_assoc)
          moreover from alr Suc have "a \<in> set (level (Suc j) l @ level (Suc j) r)"
            by (simp del: level.simps)
          ultimately show ?thesis using bz by (rule sorted_wrt_cross)
        next
          assume "b \<in> set (level j l) \<union> set (level j r)"
          then have b_old: "b \<in> set (flevel j ?pq)" using M1 [of j] by blast
          from alr Suc have "a \<in> set (flevel (Suc j) ?pq)" using M1 [of "Suc j"] by blast
          then show ?thesis using b_old by (rule D)
        qed
      qed
    qed
  qed
  have F': "sorted_wrt (\<lambda>T U. freq q \<le> freq T + freq U) (ys' @ zs' @ [?P])"
    if q: "q \<in> set (ys' @ zs' @ [?P])" and nl: "\<not> is_leaf q" for q
  proof -
    from q have "q \<in> set ys' \<union> set zs' \<or> q = ?P" by auto
    then show ?thesis
    proof
      assume qin: "q \<in> set ys' \<union> set zs'"
      then have q_pq: "q \<in> set ?pq" using sub_pq by blast
      from F [OF q_pq nl] have "sorted_wrt (\<lambda>T U. freq q \<le> freq T + freq U) (ys @ zs)"
        by (rule sorted_wrt_remove)
      then have "sorted_wrt (\<lambda>T U. freq q \<le> freq T + freq U) (ys' @ r # zs')"
        by (simp only: s2)
      then have 1: "sorted_wrt (\<lambda>T U. freq q \<le> freq T + freq U) (ys' @ zs')"
        by (rule sorted_wrt_remove)
      have 2: "freq q \<le> freq T + freq ?P" if "T \<in> set (ys' @ zs')" for T
      proof -
        from that sub_pq have "T \<in> set ?pq" by auto
        then have "0 < freq T" by (rule rpos)
        with FP [OF q_pq nl] P_freq show ?thesis by simp
      qed
      from sorted_wrt_snoc [of _ "ys' @ zs'" ?P, OF 1 2] show ?thesis by simp
    next
      assume qP: "q = ?P"
      have "sorted_wrt (\<lambda>T U. freq ?P \<le> freq T + freq U) (ys' @ zs')"
      proof (rule sorted_wrt_all)
        fix T U assume "T \<in> set (ys' @ zs')" "U \<in> set (ys' @ zs')"
        then show "freq ?P \<le> freq T + freq U"
          using l_min [of T] r_min [of U] P_freq by simp
      qed
      moreover have "freq ?P \<le> freq T + freq ?P" if "T \<in> set (ys' @ zs')" for T
      proof -
        from that sub_pq have "T \<in> set ?pq" by auto
        then have "0 < freq T" by (rule rpos)
        then show ?thesis by simp
      qed
      ultimately have "sorted_wrt (\<lambda>T U. freq ?P \<le> freq T + freq U) ((ys' @ zs') @ [?P])"
        by (rule sorted_wrt_snoc)
      then show ?thesis unfolding qP by simp
    qed
  qed
  show ?thesis unfolding level_inv_def using S' L' D' F' by blast
qed

lemma level_inv_initial: "level_inv (initial_pq t)"
proof -
  have leaves: "\<forall>n\<in>set (initial_pq t). well_formed n \<and> is_leaf n"
    by (auto simp: initial_pq_map is_leaf_def)
  then have fl: "flevel (Suc k) (initial_pq t) = []" for k by (rule flevel_leaves)
  have "sorted_wrt (\<lambda>a b. \<not> is_leaf a \<longrightarrow> \<not> is_leaf b \<and> freq a \<le> freq b) (initial_pq t)"
    by (rule sorted_wrt_all) (use leaves in blast)
  then show ?thesis unfolding level_inv_def using fl leaves by simp
qed

lemma freq_table_pos: "\<forall>e\<in>set (freq_table_of src). 0 < snd e"
proof
  fix e assume "e \<in> set (freq_table_of src)"
  then have "(fst e, snd e) \<in> set (freq_table_of src)" by simp
  then have "fst e \<in> set src \<and> snd e = int (count_list src (fst e))"
    by (simp only: freq_table_entry)
  then show "0 < snd e" using count_list_0_iff [of src "fst e"] by auto
qed

lemma build_loop_levels:
  assumes "t \<noteq> []" and "\<forall>e\<in>set t. 0 < snd e" and "build_loop on_empty (initial_pq t) = Inr [root]"
  shows "level_inv [root]"
proof -
  have ne: "initial_pq t \<noteq> []" using assms(1) by (simp add: initial_pq_map)
  have start: "forest_ok t (initial_pq t) \<and> level_inv (initial_pq t)"
    using forest_ok_initial level_inv_initial by blast
  have "\<exists>root'. build_loop on_empty (initial_pq t) = Inr [root'] \<and>
          (forest_ok t [root'] \<and> level_inv [root'])"
  proof (rule build_loop_rule [where I = "\<lambda>pq. forest_ok t pq \<and> level_inv pq", OF start ne])
    fix ys l zs ys' r zs'
    assume I: "forest_ok t (ys @ l # zs) \<and> level_inv (ys @ l # zs)"
      and b1: "\<forall>y\<in>set ys. freq l < freq y" "\<forall>z\<in>set zs. freq l \<le> freq z"
      and s2: "ys @ zs = ys' @ r # zs'"
      and b2: "\<forall>y\<in>set ys'. freq r < freq y" "\<forall>z\<in>set zs'. freq r \<le> freq z"
    from I s2 have "forest_ok t (ys' @ zs' @ [merged l r])" by (blast intro: forest_ok_step)
    moreover from I assms(2) b1 s2 b2 have "level_inv (ys' @ zs' @ [merged l r])"
      by (blast intro: level_inv_step)
    ultimately show "forest_ok t (ys' @ zs' @ [merged l r]) \<and>
        level_inv (ys' @ zs' @ [merged l r])" by blast
  qed
  with assms(3) show ?thesis by auto
qed

lemma levels_antitone:
  assumes inv: "level_inv pq" and wf: "\<forall>n\<in>set pq. well_formed n"
    and pos: "\<forall>e\<in>set (forest_table pq). 0 < snd e"
  shows "k < j \<Longrightarrow> a \<in> set (flevel j pq) \<Longrightarrow> b \<in> set (flevel k pq) \<Longrightarrow> freq a \<le> freq b"
proof (induction j arbitrary: a)
  case 0
  then show ?case by simp
next
  case (Suc j)
  from inv have D: "\<And>k a b. a \<in> set (flevel (Suc k) pq) \<Longrightarrow> b \<in> set (flevel k pq) \<Longrightarrow>
      freq a \<le> freq b"
    unfolding level_inv_def by blast
  show ?case
  proof (cases "k = j")
    case True
    with Suc.prems D show ?thesis by blast
  next
    case False
    with Suc.prems(1) have kj: "k < j" by simp
    from flevel_parent [OF Suc.prems(2) wf pos] obtain p where
      p: "p \<in> set (flevel j pq)" "freq a \<le> freq p" by blast
    from Suc.IH [OF kj p(1) Suc.prems(3)] p(2) show ?thesis by simp
  qed
qed

lemma build_dictionary_follow:
  assumes "well_formed t" and "build_dictionary t pfx = Inr d" and "d c = Some p"
  shows "\<exists>q m. p = pfx @ q \<and> follow t q = Some m \<and> char m = Some c \<and>
           (q = [] \<longrightarrow> is_leaf t) \<and> (c, freq m) \<in> set (leaf_table t)"
  using assms
proof (induction t arbitrary: pfx d rule: well_formed.induct)
  case (1 f ch l r)
  show ?case
  proof (cases ch)
    case (Some x)
    with "1.prems" have "c = x" "p = pfx" by (auto split: if_splits)
    with Some have "p = pfx @ [] \<and> follow (Node f ch l r) [] = Some (Node f ch l r) \<and>
        char (Node f ch l r) = Some c \<and> ([] = [] \<longrightarrow> is_leaf (Node f ch l r)) \<and>
        (c, freq (Node f ch l r)) \<in> set (leaf_table (Node f ch l r))"
      by (simp add: is_leaf_def)
    then show ?thesis by blast
  next
    case None
    with "1.prems"(1) obtain ln rn where l: "l = Some ln" and r: "r = Some rn"
      and wl: "well_formed ln" and wr: "well_formed rn"
      by (auto split: option.splits)
    from "1.prems"(2) None l r obtain d1 d2 where
      d1: "build_dictionary ln (pfx @ ''0'') = Inr d1"
      and d2: "build_dictionary rn (pfx @ ''1'') = Inr d2"
      and d: "d = d1 ++ d2"
      by (auto split: sum.splits)
    from "1.prems"(3) d have "d2 c = Some p \<or> d1 c = Some p"
      by (auto simp: map_add_Some_iff)
    then show ?thesis
    proof
      assume "d2 c = Some p"
      from "1.IH"(2) [OF None l r wr d2 this] obtain q m where
        q: "p = (pfx @ ''1'') @ q" "follow rn q = Some m" "char m = Some c"
          "(c, freq m) \<in> set (leaf_table rn)" by blast
      have "follow (Node f ch l r) (CHR ''1'' # q) = Some m"
      proof (cases "is_leaf rn")
        case True
        from follow_leaf [OF wr True q(2)] r True show ?thesis by simp
      next
        case False
        with q(2) r show ?thesis by simp
      qed
      with q None l r have "p = pfx @ (CHR ''1'' # q) \<and>
          follow (Node f ch l r) (CHR ''1'' # q) = Some m \<and> char m = Some c \<and>
          (CHR ''1'' # q = [] \<longrightarrow> is_leaf (Node f ch l r)) \<and>
          (c, freq m) \<in> set (leaf_table (Node f ch l r))" by simp
      then show ?thesis by blast
    next
      assume "d1 c = Some p"
      from "1.IH"(1) [OF None l r wl d1 this] obtain q m where
        q: "p = (pfx @ ''0'') @ q" "follow ln q = Some m" "char m = Some c"
          "(c, freq m) \<in> set (leaf_table ln)" by blast
      have "follow (Node f ch l r) (CHR ''0'' # q) = Some m"
      proof (cases "is_leaf ln")
        case True
        from follow_leaf [OF wl True q(2)] l True show ?thesis by simp
      next
        case False
        with q(2) l show ?thesis by simp
      qed
      with q None l r have "p = pfx @ (CHR ''0'' # q) \<and>
          follow (Node f ch l r) (CHR ''0'' # q) = Some m \<and> char m = Some c \<and>
          (CHR ''0'' # q = [] \<longrightarrow> is_leaf (Node f ch l r)) \<and>
          (c, freq m) \<in> set (leaf_table (Node f ch l r))" by simp
      then show ?thesis by blast
    qed
  qed
qed

section \<open>Frequencies and code lengths; the round trip\<close>

lemma built_code_path:
  assumes src: "src \<noteq> []"
    and root: "build_loop on_empty (initial_pq (freq_table_of src)) = Inr [root]"
    and wf: "well_formed root"
    and tab: "mset (leaf_table root) = mset (freq_table_of src)"
    and d: "build_dictionary root [] = Inr d" and c: "d c = Some p"
  shows "\<exists>m. follow root p = Some m \<and> char m = Some c \<and> (p = [] \<longrightarrow> is_leaf root) \<and>
           freq m = int (count_list src c) \<and> m \<in> set (level (length p) root)"
proof -
  from build_dictionary_follow [OF wf d c] obtain q m where
    q: "p = [] @ q" "follow root q = Some m" "char m = Some c" "q = [] \<longrightarrow> is_leaf root"
      "(c, freq m) \<in> set (leaf_table root)" by blast
  from tab have "set (leaf_table root) = set (freq_table_of src)" by (rule mset_eq_setD)
  with q(5) have "freq m = int (count_list src c)" by (simp add: freq_table_entry)
  moreover from q(2) have "m \<in> set (level (length q) root)" by (rule follow_level)
  ultimately show ?thesis using q by auto
qed

text \<open>
  C8. If a character occurs more often in the source text than another, its code is
  not longer than the other's.
\<close>

theorem more_frequent_symbol_code_not_longer:
  assumes "a \<in> set src" and "b \<in> set src" and "count_list src b < count_list src a"
  shows "\<exists>d ca cb. code_table on_empty src = Inr d \<and> d a = Some ca \<and> d b = Some cb \<and>
           length ca \<le> length cb"
proof -
  from assms(1) have src: "src \<noteq> []" by auto
  from build_huffman_tree_result [OF src] obtain root d where
    root: "build_loop on_empty (initial_pq (freq_table_of src)) = Inr [root]"
    and wf: "well_formed root"
    and tab: "mset (leaf_table root) = mset (freq_table_of src)"
    and d: "build_dictionary root [] = Inr d" and dom: "dom d = set src"
    and b: "\<forall>self. build_huffman_tree on_empty self src = Inr (self\<lparr>root_node := Some root, codes := d\<rparr>)"
    by blast
  from dom assms(1,2) obtain ca cb where ca: "d a = Some ca" and cb: "d b = Some cb"
    by blast
  from built_code_path [OF src root wf tab d ca] obtain ma where
    ma: "freq ma = int (count_list src a)" "ma \<in> set (level (length ca) root)" by blast
  from built_code_path [OF src root wf tab d cb] obtain mb where
    mb: "freq mb = int (count_list src b)" "mb \<in> set (level (length cb) root)" by blast
  have inv: "level_inv [root]"
    using freq_table_nonempty [OF src] freq_table_pos root by (rule build_loop_levels)
  have pos: "\<forall>e\<in>set (forest_table [root]). 0 < snd e"
  proof -
    from tab have "set (leaf_table root) = set (freq_table_of src)" by (rule mset_eq_setD)
    then show ?thesis using freq_table_pos [of src] by simp
  qed
  have "length ca \<le> length cb"
  proof (rule ccontr)
    assume "\<not> length ca \<le> length cb"
    then have lt: "length cb < length ca" by simp
    have "freq ma \<le> freq mb"
      by (rule levels_antitone [OF inv _ pos lt]) (use wf ma(2) mb(2) in simp_all)
    with ma(1) mb(1) assms(3) show False by simp
  qed
  with ca cb b show ?thesis by (auto simp: code_table_def init_from_source)
qed

theorem more_frequent_symbol_code_not_longer_witness:
  "\<exists>d ca cb. code_table (Inl QueueError) ''abracadabra'' = Inr d \<and> d CHR ''a'' = Some ca \<and>
     d CHR ''c'' = Some cb \<and> length ca \<le> length cb"
  by (rule more_frequent_symbol_code_not_longer) simp_all

text \<open>
  With two or more different characters in the text the round trip holds: the root is an
  internal node, every code is a non-empty path to its character's leaf, and decoding the
  encoded stream with the root gives the text back.
\<close>

lemma two_symbols_root_internal:
  assumes "well_formed root" and "a \<in> set (leaf_chars root)" and "b \<in> set (leaf_chars root)"
    and "a \<noteq> b"
  shows "\<not> is_leaf root"
  using assms by (cases root) (auto simp: is_leaf_def leaf_chars_def split: option.splits)

lemma round_trip_two_symbols:
  assumes "a \<in> set src" and "b \<in> set src" and "a \<noteq> b"
  shows "\<exists>enc root. encode on_empty src = Inr enc \<and> tree_of on_empty src = Inr (Some root) \<and>
           decode on_empty enc root = Inr (Some src)"
proof -
  from assms(1) have src: "src \<noteq> []" by auto
  from build_huffman_tree_result [OF src] obtain root d where
    root: "build_loop on_empty (initial_pq (freq_table_of src)) = Inr [root]"
    and wf: "well_formed root"
    and tab: "mset (leaf_table root) = mset (freq_table_of src)"
    and d: "build_dictionary root [] = Inr d" and dom: "dom d = set src"
    and b: "\<forall>self. build_huffman_tree on_empty self src = Inr (self\<lparr>root_node := Some root, codes := d\<rparr>)"
    by blast
  from tab have "set (leaf_table root) = set (freq_table_of src)" by (rule mset_eq_setD)
  then have "set (leaf_chars root) = set src"
    using keys_freq_table [of src] by (simp add: leaf_chars_def)
  with assms have "a \<in> set (leaf_chars root)" "b \<in> set (leaf_chars root)" by simp_all
  with wf have internal: "\<not> is_leaf root"
    using assms(3) by (rule two_symbols_root_internal)
  let ?enc = "concat (map (\<lambda>c. the (d c)) src)"
  have enc: "encode on_empty src = Inr ?enc"
    using b dom by (simp add: encode_def init_from_source encoding_def join_codes_total)
  have tree: "tree_of on_empty src = Inr (Some root)"
    using b by (simp add: tree_of_def init_from_source)
  have paths: "list_all2 (\<lambda>p c. p \<noteq> [] \<and> (\<exists>m. follow root p = Some m \<and> char m = Some c))
      (map (\<lambda>c. the (d c)) src) src"
  proof -
    have "the (d c) \<noteq> [] \<and> (\<exists>m. follow root (the (d c)) = Some m \<and> char m = Some c)"
      if "c \<in> set src" for c
    proof -
      from that dom obtain p where p: "d c = Some p" by blast
      from built_code_path [OF src root wf tab d p] internal p show ?thesis by auto
    qed
    then show ?thesis by (simp add: list_all2_conv_all_nth)
  qed
  have "decode_loop root root (?enc @ []) [] = decode_loop root root [] ([] @ src)"
    using paths by (rule decode_loop_codes)
  then have "decode_encoded_text ?enc root = Inr src"
    by (simp add: decode_encoded_text_def)
  then have "decode on_empty ?enc root = Inr (Some src)"
    by (simp add: decode_def init_def)
  with enc tree show ?thesis by blast
qed

section \<open>Texts with a single character\<close>

text \<open>
  For every non-empty text made of one character the tree is a single leaf, the code of
  the character is empty and so is the encoded stream, whatever the length of the text;
  decoding the empty stream gives the empty text.
\<close>

lemma join_codes_empty_code:
  "\<forall>x\<in>set s. d x = Some [] \<Longrightarrow> join_codes d s = Inr []"
  by (induction s) auto

lemma single_symbol_text:
  assumes "src \<noteq> []" and "set src = {c}"
  shows "tree_of on_empty src = Inr (Some (Node (int (length src)) (Some c) None None)) \<and>
         code_of on_empty src c = Inr (Some []) \<and> encode on_empty src = Inr [] \<and>
         decode on_empty [] (Node (int (length src)) (Some c) None None) = Inr (Some [])"
proof -
  let ?t = "freq_table_of src"
  have keys: "distinct (map fst ?t)" "set (map fst ?t) = {c}"
    using distinct_freq_table [of src] keys_freq_table [of src] assms(2) by simp_all
  have "card (set (map fst ?t)) = length (map fst ?t)"
    using keys(1) by (rule distinct_card)
  with keys(2) have "length ?t = 1" by simp
  then obtain e where e: "?t = [e]" by (cases ?t) auto
  with keys(2) have "fst e = c" by simp
  moreover have "(fst e, snd e) \<in> set ?t" using e by simp
  then have "snd e = int (count_list src (fst e))" by (simp only: freq_table_entry)
  moreover have "count_list src c = length src"
  proof -
    have "set xs \<subseteq> {c} \<Longrightarrow> count_list xs c = length xs" for xs
      by (induction xs) auto
    with assms(2) show ?thesis by simp
  qed
  ultimately have t: "?t = [(c, int (length src))]" using e by (cases e) simp
  let ?root = "Node (int (length src)) (Some c) None None"
  have loop: "build_loop on_empty (initial_pq ?t) = Inr [?root]"
    unfolding t by (simp add: initial_pq_map)
  have b: "build_huffman_tree on_empty self src =
      Inr (self\<lparr>root_node := Some ?root, codes := [c \<mapsto> []]\<rparr>)" for self
    using loop by (simp add: build_huffman_tree_def del_min_single)
  have "join_codes [c \<mapsto> []] src = Inr []"
    using assms(2) by (intro join_codes_empty_code) auto
  with b show ?thesis
    by (simp add: tree_of_def code_of_def code_table_def encode_def encoding_def
        init_from_source decode_def init_def decode_encoded_text_def)
qed

end
